theory Spec2Isabelle
  imports Main
begin

section \<open>Error values, objects and the store\<close>

text \<open>
  A Go value of interface type \<^verbatim>\<open>error\<close> is either \<^verbatim>\<open>nil\<close> or a reference to an error
  object (an interface that holds a nil pointer is outside the model). References are
  addresses into a store. For an error of pointer type the reference is the pointer, and
  \<^verbatim>\<open>err == target\<close> is equality of addresses; an error of another comparable type is
  one object per value, so that equality of addresses is again \<^verbatim>\<open>==\<close>; an error whose
  type is not comparable (a slice, say) carries the flag that says so, and the code
  never evaluates \<^verbatim>\<open>==\<close> on it. The store is a list of objects, an object's address is
  its index, and allocation appends, so a newly built object gets an address no live
  object has.

  Two kinds of object live in the store: a \<^verbatim>\<open>*Proxy\<close> (the struct of \<^verbatim>\<open>proxy.go\<close>) and
  any other error, given by its dynamic type, whether that type is comparable, the text
  its \<^verbatim>\<open>Error()\<close> returns and what it unwraps to: the error its \<^verbatim>\<open>Unwrap() error\<close>
  returns (\<^verbatim>\<open>nil\<close> when it has no such method) or the list its \<^verbatim>\<open>Unwrap() []error\<close>
  returns. This covers the results of \<^verbatim>\<open>errors.New\<close>, \<^verbatim>\<open>fmt.Errorf\<close> and
  \<^verbatim>\<open>errors.Join\<close>, and user types such as the \<^verbatim>\<open>customError\<close> of the tests. Errors with
  \<^verbatim>\<open>Is\<close>/\<^verbatim>\<open>As\<close>/\<^verbatim>\<open>Format\<close> methods of their own, other than \<^verbatim>\<open>*Proxy\<close>, are outside
  the model.

  A function returns \<open>None\<close> when the Go code does not return normally: a nil or
  invalid pointer is dereferenced (a run-time panic), or the fuel of a walk is used up.
\<close>

type_synonym addr = nat

type_synonym error = "addr option"

record Proxy =
  base :: error
  cause :: error
  extends :: "error list"

datatype go_type = ProxyPtr | Other nat

datatype unwraps = UnwrapOne error | UnwrapMany "error list"

datatype obj =
  ErrObj nat bool string unwraps
| ProxyObj Proxy

type_synonym heap = "obj list"

definition lookup :: "heap \<Rightarrow> addr \<Rightarrow> obj option" where
  "lookup h a = (if a < length h then Some (h ! a) else None)"

definition alloc :: "heap \<Rightarrow> obj \<Rightarrow> addr \<times> heap" where
  "alloc h ob = (length h, h @ [ob])"

text \<open>\<^verbatim>\<open>*e\<close> for a receiver \<^verbatim>\<open>e *Proxy\<close>.\<close>

definition deref :: "heap \<Rightarrow> addr \<Rightarrow> Proxy option" where
  "deref h e = (case lookup h e of Some (ProxyObj p) \<Rightarrow> Some p | _ \<Rightarrow> None)"

definition type_of :: "obj \<Rightarrow> go_type" where
  "type_of ob = (case ob of ErrObj ty _ _ _ \<Rightarrow> Other ty | ProxyObj _ \<Rightarrow> ProxyPtr)"

text \<open>\<^verbatim>\<open>reflectlite.TypeOf(err).Comparable()\<close>; a pointer type is comparable.\<close>

definition comparable :: "obj \<Rightarrow> bool" where
  "comparable ob = (case ob of ErrObj _ c _ _ \<Rightarrow> c | ProxyObj _ \<Rightarrow> True)"

text \<open>The dynamic type of the errors that \<^verbatim>\<open>errors.New\<close> returns, a pointer type.\<close>

definition errorString :: nat where
  "errorString = 0"

definition errors_New :: "heap \<Rightarrow> string \<Rightarrow> addr \<times> heap" where
  "errors_New h text = alloc h (ErrObj errorString True text (UnwrapOne None))"

section \<open>Constructors\<close>

definition New :: "heap \<Rightarrow> string \<Rightarrow> addr \<times> heap" where
  "New h text =
     (let (b, h1) = errors_New h text
      in alloc h1 (ProxyObj \<lparr>base = Some b, cause = None, extends = []\<rparr>))"

text \<open>
  \<^verbatim>\<open>Newf\<close>: the interpolation done by \<^verbatim>\<open>fmt.Errorf\<close> is not modelled; its result, a
  new error object of some pointer type (\<^verbatim>\<open>*errorString\<close>, \<^verbatim>\<open>*wrapError\<close> or
  \<^verbatim>\<open>*wrapErrors\<close>) with some text and wrapped errors, is the argument.
\<close>

definition fmt_Errorf :: "heap \<Rightarrow> nat \<times> string \<times> unwraps \<Rightarrow> addr \<times> heap" where
  "fmt_Errorf h r = (case r of (ty, s, u) \<Rightarrow> alloc h (ErrObj ty True s u))"

definition Newf :: "heap \<Rightarrow> nat \<times> string \<times> unwraps \<Rightarrow> addr \<times> heap" where
  "Newf h r =
     (let (b, h1) = fmt_Errorf h r
      in alloc h1 (ProxyObj \<lparr>base = Some b, cause = None, extends = []\<rparr>))"

text \<open>\<^verbatim>\<open>Wrap\<close> returns a \<^verbatim>\<open>*Proxy\<close> that may be nil.\<close>

definition Wrap :: "heap \<Rightarrow> error \<Rightarrow> addr option \<times> heap" where
  "Wrap h err =
     (if err = None then (None, h)
      else (let (p, h1) = alloc h (ProxyObj \<lparr>base = err, cause = None, extends = []\<rparr>)
            in (Some p, h1)))"

section \<open>Transformations\<close>

definition WithCause :: "heap \<Rightarrow> addr \<Rightarrow> error \<Rightarrow> (addr \<times> heap) option" where
  "WithCause h e c =
     (if c = None then Some (e, h)
      else (case deref h e of
              None \<Rightarrow> None
            | Some cpy \<Rightarrow>
                Some (alloc h (ProxyObj (cpy\<lparr>cause := c, extends := [Some e] @ extends cpy\<rparr>)))))"

text \<open>The loop of \<^verbatim>\<open>Extends\<close> that collects the non-nil arguments.\<close>

definition nonNilErrs :: "error list \<Rightarrow> error list" where
  "nonNilErrs errs = foldl (\<lambda>acc err. if err \<noteq> None then acc @ [err] else acc) [] errs"

definition Extends :: "heap \<Rightarrow> addr \<Rightarrow> error list \<Rightarrow> (addr \<times> heap) option" where
  "Extends h e errs =
     (if length (nonNilErrs errs) = 0 then Some (e, h)
      else (case deref h e of
              None \<Rightarrow> None
            | Some cpy \<Rightarrow>
                Some (alloc h (ProxyObj (cpy\<lparr>extends := extends cpy @ nonNilErrs errs\<rparr>)))))"

section \<open>Accessors\<close>

definition Unwrap :: "heap \<Rightarrow> addr \<Rightarrow> error option" where
  "Unwrap h e = map_option base (deref h e)"

definition Cause :: "heap \<Rightarrow> addr \<Rightarrow> error option" where
  "Cause h e = map_option cause (deref h e)"

text \<open>
  \<^verbatim>\<open>Error()\<close> of any error object. For a proxy it is the method of \<^verbatim>\<open>proxy.go\<close>, which
  asks the base, itself possibly a proxy; the fuel bounds that chain.
\<close>

fun Error :: "nat \<Rightarrow> heap \<Rightarrow> addr \<Rightarrow> string option" where
  "Error 0 h e = None"
| "Error (Suc n) h e =
     (case lookup h e of
        None \<Rightarrow> None
      | Some (ErrObj ty c s u) \<Rightarrow> Some s
      | Some (ProxyObj p) \<Rightarrow>
          (case base p of None \<Rightarrow> Some [] | Some b \<Rightarrow> Error n h b))"

section \<open>The identity check\<close>

text \<open>
  \<^verbatim>\<open>errors.Is\<close> of the standard library and the \<^verbatim>\<open>Is\<close> hook of the proxy call each other:
  \<^verbatim>\<open>
  func Is(err, target error) bool {
      if err == nil || target == nil { return err == target }
      isComparable := reflectlite.TypeOf(target).Comparable()
      return is(err, target, isComparable)
  }
  func is(err, target error, targetComparable bool) bool {
      for {
          if targetComparable && err == target { return true }
          if x, ok := err.(interface{ Is(error) bool }); ok && x.Is(target) { return true }
          switch x := err.(type) {
          case interface{ Unwrap() error }:
              err = x.Unwrap()
              if err == nil { return false }
          case interface{ Unwrap() []error }:
              for _, err := range x.Unwrap() {
                  if is(err, target, targetComparable) { return true }
              }
              return false
          default:
              return false
          }
      }
  }
  \<close>
  The type of the target is that of the object it refers to; a reference to no object
  of the store is taken to be a pointer. One unit of fuel is used by each turn of the
  loop of \<^verbatim>\<open>is\<close>; \<open>is_each\<close> is its \<^verbatim>\<open>for ... range x.Unwrap()\<close>, in which a nil entry
  matches no target, and \<open>Is_range\<close> is the \<^verbatim>\<open>for ... range e.extends\<close> of the hook.
\<close>

definition isComparable :: "heap \<Rightarrow> addr \<Rightarrow> bool" where
  "isComparable h t = (case lookup h t of None \<Rightarrow> True | Some ob \<Rightarrow> comparable ob)"

function (sequential) errors_Is :: "nat \<Rightarrow> heap \<Rightarrow> error \<Rightarrow> error \<Rightarrow> bool option"
  and is_loop :: "nat \<Rightarrow> heap \<Rightarrow> addr \<Rightarrow> addr \<Rightarrow> bool \<Rightarrow> bool option"
  and is_each :: "nat \<Rightarrow> heap \<Rightarrow> error list \<Rightarrow> addr \<Rightarrow> bool \<Rightarrow> bool option"
  and Is :: "nat \<Rightarrow> heap \<Rightarrow> addr \<Rightarrow> error \<Rightarrow> bool option"
  and Is_range :: "nat \<Rightarrow> heap \<Rightarrow> error list \<Rightarrow> error \<Rightarrow> bool option"
where
  "errors_Is n h err target =
     (case err of
        None \<Rightarrow> Some (err = target)
      | Some e \<Rightarrow>
          (case target of
             None \<Rightarrow> Some (err = target)
           | Some t \<Rightarrow> is_loop n h e t (isComparable h t)))"
| "is_loop 0 h e t targetComparable = None"
| "is_loop (Suc n) h e t targetComparable =
     (if targetComparable \<and> e = t then Some True
      else (case lookup h e of
              None \<Rightarrow> None
            | Some (ErrObj ty c s u) \<Rightarrow>
                (case u of
                   UnwrapOne w \<Rightarrow>
                     (case w of
                        None \<Rightarrow> Some False
                      | Some e' \<Rightarrow> is_loop n h e' t targetComparable)
                 | UnwrapMany ws \<Rightarrow> is_each n h ws t targetComparable)
            | Some (ProxyObj p) \<Rightarrow>
                (case Is n h e (Some t) of
                   None \<Rightarrow> None
                 | Some True \<Rightarrow> Some True
                 | Some False \<Rightarrow>
                     (case base p of
                        None \<Rightarrow> Some False
                      | Some e' \<Rightarrow> is_loop n h e' t targetComparable))))"
| "is_each n h [] t targetComparable = Some False"
| "is_each n h (w # ws) t targetComparable =
     (case w of
        None \<Rightarrow> is_each n h ws t targetComparable
      | Some e \<Rightarrow>
          (case is_loop n h e t targetComparable of
             None \<Rightarrow> None
           | Some True \<Rightarrow> Some True
           | Some False \<Rightarrow> is_each n h ws t targetComparable))"
| "Is n h e target =
     (if target = None then Some False
      else (case deref h e of
              None \<Rightarrow> None
            | Some p \<Rightarrow> Is_range n h (extends p) target))"
| "Is_range n h [] target = Some False"
| "Is_range n h (ext # exts) target =
     (case errors_Is n h ext target of
        None \<Rightarrow> None
      | Some True \<Rightarrow> Some True
      | Some False \<Rightarrow> Is_range n h exts target)"
  by pat_completeness auto
termination
  by (relation "measures [
        (\<lambda>x. case x of Inl (Inl (n, _)) \<Rightarrow> n | Inl (Inr (n, _)) \<Rightarrow> n
                       | Inr (Inl (n, _)) \<Rightarrow> n | Inr (Inr (Inl (n, _))) \<Rightarrow> n
                       | Inr (Inr (Inr (n, _))) \<Rightarrow> n),
        (\<lambda>x. case x of Inl (Inl _) \<Rightarrow> 1 | Inl (Inr _) \<Rightarrow> 0
                       | Inr (Inl _) \<Rightarrow> 1 | Inr (Inr (Inl _)) \<Rightarrow> 3
                       | Inr (Inr (Inr _)) \<Rightarrow> 2),
        (\<lambda>x. case x of Inr (Inl (_, _, ws, _)) \<Rightarrow> length ws
                       | Inr (Inr (Inr (_, _, exts, _))) \<Rightarrow> length exts
                       | _ \<Rightarrow> 0)]") auto

section \<open>The extraction hook\<close>

text \<open>
  The \<^verbatim>\<open>target any\<close> of \<^verbatim>\<open>errors.As\<close> and of the \<^verbatim>\<open>As\<close> hook is a non-nil pointer to a
  variable whose type is an interface or implements \<^verbatim>\<open>error\<close> (anything else makes
  \<^verbatim>\<open>errors.As\<close> panic and is not modelled). The variable is given by the set of dynamic
  types assignable to it and by its content; a call returns its verdict and the variable.
  \<^verbatim>\<open>
  func As(err error, target any) bool {
      if err == nil { return false }
      ...
      return as(err, target, val, targetType)
  }
  func as(err error, target any, targetVal reflectlite.Value, targetType reflectlite.Type) bool {
      for {
          if reflectlite.TypeOf(err).AssignableTo(targetType) {
              targetVal.Elem().Set(reflectlite.ValueOf(err))
              return true
          }
          if x, ok := err.(interface{ As(any) bool }); ok && x.As(target) { return true }
          switch x := err.(type) {
          case interface{ Unwrap() error }:
              err = x.Unwrap()
              if err == nil { return false }
          case interface{ Unwrap() []error }:
              for _, err := range x.Unwrap() {
                  if err == nil { continue }
                  if as(err, target, targetVal, targetType) { return true }
              }
              return false
          default:
              return false
          }
      }
  }
  \<close>
\<close>

record holder =
  assignable :: "go_type set"
  content :: error

function (sequential) errors_As :: "nat \<Rightarrow> heap \<Rightarrow> error \<Rightarrow> holder \<Rightarrow> (bool \<times> holder) option"
  and as_loop :: "nat \<Rightarrow> heap \<Rightarrow> addr \<Rightarrow> holder \<Rightarrow> (bool \<times> holder) option"
  and as_each :: "nat \<Rightarrow> heap \<Rightarrow> error list \<Rightarrow> holder \<Rightarrow> (bool \<times> holder) option"
  and As :: "nat \<Rightarrow> heap \<Rightarrow> addr \<Rightarrow> holder \<Rightarrow> (bool \<times> holder) option"
  and As_range :: "nat \<Rightarrow> heap \<Rightarrow> error list \<Rightarrow> holder \<Rightarrow> (bool \<times> holder) option"
where
  "errors_As n h err target =
     (case err of None \<Rightarrow> Some (False, target) | Some e \<Rightarrow> as_loop n h e target)"
| "as_loop 0 h e target = None"
| "as_loop (Suc n) h e target =
     (case lookup h e of
        None \<Rightarrow> None
      | Some ob \<Rightarrow>
          if type_of ob \<in> assignable target then Some (True, target\<lparr>content := Some e\<rparr>)
          else (case ob of
                  ErrObj ty c s u \<Rightarrow>
                    (case u of
                       UnwrapOne w \<Rightarrow>
                         (case w of
                            None \<Rightarrow> Some (False, target)
                          | Some e' \<Rightarrow> as_loop n h e' target)
                     | UnwrapMany ws \<Rightarrow> as_each n h ws target)
                | ProxyObj p \<Rightarrow>
                    (case As n h e target of
                       None \<Rightarrow> None
                     | Some (True, target') \<Rightarrow> Some (True, target')
                     | Some (False, target') \<Rightarrow>
                         (case base p of
                            None \<Rightarrow> Some (False, target')
                          | Some e' \<Rightarrow> as_loop n h e' target'))))"
| "as_each n h [] target = Some (False, target)"
| "as_each n h (w # ws) target =
     (case w of
        None \<Rightarrow> as_each n h ws target
      | Some e \<Rightarrow>
          (case as_loop n h e target of
             None \<Rightarrow> None
           | Some (True, target') \<Rightarrow> Some (True, target')
           | Some (False, target') \<Rightarrow> as_each n h ws target'))"
| "As n h e target =
     (case deref h e of
        None \<Rightarrow> None
      | Some p \<Rightarrow> As_range n h (extends p) target)"
| "As_range n h [] target = Some (False, target)"
| "As_range n h (ext # exts) target =
     (case errors_As n h ext target of
        None \<Rightarrow> None
      | Some (True, target') \<Rightarrow> Some (True, target')
      | Some (False, target') \<Rightarrow> As_range n h exts target')"
  by pat_completeness auto
termination
  by (relation "measures [
        (\<lambda>x. case x of Inl (Inl (n, _)) \<Rightarrow> n | Inl (Inr (n, _)) \<Rightarrow> n
                       | Inr (Inl (n, _)) \<Rightarrow> n | Inr (Inr (Inl (n, _))) \<Rightarrow> n
                       | Inr (Inr (Inr (n, _))) \<Rightarrow> n),
        (\<lambda>x. case x of Inl (Inl _) \<Rightarrow> 1 | Inl (Inr _) \<Rightarrow> 0
                       | Inr (Inl _) \<Rightarrow> 1 | Inr (Inr (Inl _)) \<Rightarrow> 3
                       | Inr (Inr (Inr _)) \<Rightarrow> 2),
        (\<lambda>x. case x of Inr (Inl (_, _, ws, _)) \<Rightarrow> length ws
                       | Inr (Inr (Inr (_, _, exts, _))) \<Rightarrow> length exts
                       | _ \<Rightarrow> 0)]") auto

section \<open>Formatting\<close>

text \<open>
  Of a \<^verbatim>\<open>fmt.State\<close> the code uses \<^verbatim>\<open>Flag\<close> and, through \<^verbatim>\<open>fmt.Fprint\<close> and
  \<^verbatim>\<open>fmt.Fprintf\<close>, \<^verbatim>\<open>Write\<close>: the state is the set of flags of the directive being
  printed and the text written so far. A verb is a rune.
\<close>

type_synonym rune = int

record State =
  flags :: "rune set"
  written :: string

definition Flag :: "State \<Rightarrow> rune \<Rightarrow> bool" where
  "Flag s c = (c \<in> flags s)"

definition Write :: "State \<Rightarrow> string \<Rightarrow> State" where
  "Write s b = s\<lparr>written := written s @ b\<rparr>"

definition rune :: "char \<Rightarrow> rune" where
  "rune c = of_char c"

text \<open>
  \<^verbatim>\<open>Format\<close> and what package \<^verbatim>\<open>fmt\<close> prints for an error operand under a plain
  \<^verbatim>\<open>%s\<close>: an operand that implements \<^verbatim>\<open>fmt.Formatter\<close>, here a proxy, has its
  \<^verbatim>\<open>Format\<close> called with verb \<^verbatim>\<open>s\<close> on a printer that has no flag set; any other
  error has its \<^verbatim>\<open>Error()\<close> printed. \<^verbatim>\<open>strconv.Quote\<close>, which \<^verbatim>\<open>%q\<close> applies to a
  string operand, is the parameter \<open>quote\<close>. The fuel bounds the chain of bases that
  \<^verbatim>\<open>Error()\<close> follows and the calls from the printer back into \<^verbatim>\<open>Format\<close>.
\<close>

function (sequential) Format :: "(string \<Rightarrow> string) \<Rightarrow> nat \<Rightarrow> heap \<Rightarrow> addr \<Rightarrow> State \<Rightarrow> rune \<Rightarrow> State option"
  and verb_s :: "(string \<Rightarrow> string) \<Rightarrow> nat \<Rightarrow> heap \<Rightarrow> addr \<Rightarrow> string option"
where
  "Format quote n h e s verb =
     (if verb = rune CHR ''v'' then
        (case deref h e of
           None \<Rightarrow> None
         | Some p \<Rightarrow>
             if Flag s (rune CHR ''+'') \<and> cause p \<noteq> None then
               (case Error n h e of
                  None \<Rightarrow> None
                | Some m \<Rightarrow>
                    (case verb_s quote n h (the (cause p)) of
                       None \<Rightarrow> None
                     | Some c \<Rightarrow> Some (Write s (m @ '' (cause: '' @ c @ '')''))))
             else map_option (Write s) (Error n h e))
      else if verb = rune CHR ''s'' then map_option (Write s) (Error n h e)
      else if verb = rune CHR ''q'' then map_option (\<lambda>m. Write s (quote m)) (Error n h e)
      else Some s)"
| "verb_s quote 0 h a = None"
| "verb_s quote (Suc n) h a =
     (case lookup h a of
        None \<Rightarrow> None
      | Some (ErrObj ty c m u) \<Rightarrow> Some m
      | Some (ProxyObj p) \<Rightarrow>
          map_option written
            (Format quote n h a \<lparr>flags = {}, written = []\<rparr> (rune CHR ''s'')))"
  by pat_completeness auto
termination
  by (relation "measures [
        (\<lambda>x. case x of Inl (_, n, _) \<Rightarrow> n | Inr (_, n, _) \<Rightarrow> n),
        (\<lambda>x. case x of Inl _ \<Rightarrow> 1 | Inr _ \<Rightarrow> 0)]") auto

section \<open>Well-formed stores\<close>

text \<open>
  Objects are never changed after they are built, and an object can only refer to errors
  that existed when it was built. In a well-formed store every reference of an object
  therefore points to a lower address; the walks of \<^verbatim>\<open>errors.Is\<close>, \<^verbatim>\<open>errors.As\<close> and
  \<^verbatim>\<open>Error()\<close> then come to an end.
\<close>

definition refs :: "obj \<Rightarrow> error list" where
  "refs ob =
     (case ob of
        ErrObj ty c s u \<Rightarrow> (case u of UnwrapOne w \<Rightarrow> [w] | UnwrapMany ws \<Rightarrow> ws)
      | ProxyObj p \<Rightarrow> base p # cause p # extends p)"

definition below :: "nat \<Rightarrow> error \<Rightarrow> bool" where
  "below k r = (case r of None \<Rightarrow> True | Some a \<Rightarrow> a < k)"

definition wf_heap :: "heap \<Rightarrow> bool" where
  "wf_heap h = list_all (\<lambda>(a, ob). list_all (below a) (refs ob)) (enumerate 0 h)"

section \<open>Example stores\<close>

text \<open>
  \<^verbatim>\<open>ErrNotFound = errors.New("not found")\<close> at address 0 and
  \<^verbatim>\<open>ErrUserNotFound = New("user not found").Extends(ErrNotFound)\<close> at address 3.
\<close>

definition store_user :: heap where
  "store_user =
     [ErrObj errorString True ''not found'' (UnwrapOne None),
      ErrObj errorString True ''user not found'' (UnwrapOne None),
      ProxyObj \<lparr>base = Some 1, cause = None, extends = []\<rparr>,
      ProxyObj \<lparr>base = Some 1, cause = None, extends = [Some 0]\<rparr>]"

text \<open>
  The nested causes of \<^verbatim>\<open>TestProxy_Format__plus_v_nested_cause\<close>: the inner cause at 0,
  \<^verbatim>\<open>New("some outer cause").WithCause(innerCause)\<close> at 3 and
  \<^verbatim>\<open>New("some main error").WithCause(outerCause)\<close> at 6.
\<close>

definition store_nested :: heap where
  "store_nested =
     [ErrObj errorString True ''some inner cause'' (UnwrapOne None),
      ErrObj errorString True ''some outer cause'' (UnwrapOne None),
      ProxyObj \<lparr>base = Some 1, cause = None, extends = []\<rparr>,
      ProxyObj \<lparr>base = Some 1, cause = Some 0, extends = [Some 2]\<rparr>,
      ErrObj errorString True ''some main error'' (UnwrapOne None),
      ProxyObj \<lparr>base = Some 4, cause = None, extends = []\<rparr>,
      ProxyObj \<lparr>base = Some 4, cause = Some 3, extends = [Some 5]\<rparr>]"

text \<open>A stand-in for \<^verbatim>\<open>strconv.Quote\<close> on texts that need no escaping.\<close>

definition quote_plain :: "string \<Rightarrow> string" where
  "quote_plain m = [CHR 0x22] @ m @ [CHR 0x22]"

text \<open>
  A \<^verbatim>\<open>customError\<close> at 0, wrapped at 1 by an error of another type
  (\<^verbatim>\<open>fmt.Errorf("lookup failed: %w", customErr)\<close>), and at 4
  \<^verbatim>\<open>New("some base error").Extends(wrapped)\<close>.
\<close>

definition store_wrapped :: heap where
  "store_wrapped =
     [ErrObj 7 True ''custom error'' (UnwrapOne None),
      ErrObj 1 True ''lookup failed: custom error'' (UnwrapOne (Some 0)),
      ErrObj errorString True ''some base error'' (UnwrapOne None),
      ProxyObj \<lparr>base = Some 2, cause = None, extends = []\<rparr>,
      ProxyObj \<lparr>base = Some 2, cause = None, extends = [Some 1]\<rparr>]"


section \<open>What a call leaves in the target\<close>

text \<open>
  The target after \<^verbatim>\<open>errors.As\<close> or the hook has returned: on true it holds an error
  of the store whose type is assignable to it, on false it is as it was.
\<close>

definition as_post :: "heap \<Rightarrow> holder \<Rightarrow> bool \<times> holder \<Rightarrow> bool" where
  "as_post h target r =
     (case r of
        (True, target') \<Rightarrow>
          (\<exists>a ob. target' = target\<lparr>content := Some a\<rparr> \<and> lookup h a = Some ob \<and>
                  type_of ob \<in> assignable target)
      | (False, target') \<Rightarrow> target' = target)"

section \<open>Basic facts\<close>

lemma nonNilErrs_acc:
  "foldl (\<lambda>acc err. if err \<noteq> None then acc @ [err] else acc) acc errs
     = acc @ filter (\<lambda>err. err \<noteq> None) errs"
  by (induction errs arbitrary: acc) simp_all

lemma nonNilErrs_filter: "nonNilErrs errs = filter (\<lambda>err. err \<noteq> None) errs"
  unfolding nonNilErrs_def using nonNilErrs_acc [of "[]" errs] by simp

lemma lookup_alloc:
  "lookup (h @ [ob]) a = (if a = length h then Some ob else lookup h a)"
  by (simp add: lookup_def nth_append)

lemma lookup_fresh: "lookup h (length h) = None"
  by (simp add: lookup_def)

lemma lookup_update:
  "lookup (h[p := ob]) a = (if a = p \<and> p < length h then Some ob else lookup h a)"
  by (simp add: lookup_def nth_list_update)

lemma deref_alloc_new: "deref (h @ [ProxyObj p]) (length h) = Some p"
  by (simp add: deref_def lookup_alloc)

lemma deref_alloc_old: "a < length h \<Longrightarrow> deref (h @ [ob]) a = deref h a"
  by (simp add: deref_def lookup_alloc)

lemma deref_Some_less: "deref h a = Some p \<Longrightarrow> a < length h"
  by (simp add: deref_def lookup_def split: if_splits)

lemma deref_Some_lookup: "deref h a = Some p \<longleftrightarrow> lookup h a = Some (ProxyObj p)"
  by (auto simp: deref_def split: option.splits obj.splits)

lemma isComparable_proxy: "lookup h t = Some (ProxyObj p) \<Longrightarrow> isComparable h t"
  by (simp add: isComparable_def comparable_def)

lemma isComparable_alloc: "t < length h \<Longrightarrow> isComparable (h @ [ob]) t = isComparable h t"
  by (simp add: isComparable_def lookup_alloc)

lemma wf_heap_iff:
  "wf_heap h \<longleftrightarrow> (\<forall>a<length h. \<forall>r\<in>set (refs (h ! a)). below a r)"
proof
  assume wf: "wf_heap h"
  show "\<forall>a<length h. \<forall>r\<in>set (refs (h ! a)). below a r"
  proof (intro allI impI ballI)
    fix a r
    assume a: "a < length h" and r: "r \<in> set (refs (h ! a))"
    from a have "(a, h ! a) \<in> set (enumerate 0 h)"
      by (simp add: in_set_enumerate_eq)
    with wf r show "below a r"
      by (auto simp: wf_heap_def list_all_iff)
  qed
next
  assume "\<forall>a<length h. \<forall>r\<in>set (refs (h ! a)). below a r"
  then show "wf_heap h"
    by (auto simp: wf_heap_def list_all_iff in_set_enumerate_eq)
qed

lemma wf_heap_ref:
  assumes "wf_heap h" and "lookup h a = Some ob" and "Some b \<in> set (refs ob)"
  shows "b < a"
proof -
  from assms(2) have a: "a < length h" and ob: "ob = h ! a"
    by (auto simp: lookup_def split: if_splits)
  with assms(1,3) have "below a (Some b)" by (simp add: wf_heap_iff)
  then show ?thesis by (simp add: below_def)
qed

lemma wf_heap_one:
  "wf_heap h \<Longrightarrow> lookup h a = Some (ErrObj ty c s (UnwrapOne (Some b))) \<Longrightarrow> b < a"
  using wf_heap_ref [of h a "ErrObj ty c s (UnwrapOne (Some b))" b] by (simp add: refs_def)

lemma wf_heap_many:
  "wf_heap h \<Longrightarrow> lookup h a = Some (ErrObj ty c s (UnwrapMany ws)) \<Longrightarrow> Some b \<in> set ws \<Longrightarrow>
   b < a"
  using wf_heap_ref [of h a "ErrObj ty c s (UnwrapMany ws)" b] by (simp add: refs_def)

lemma wf_heap_base:
  "wf_heap h \<Longrightarrow> lookup h a = Some (ProxyObj p) \<Longrightarrow> base p = Some b \<Longrightarrow> b < a"
  using wf_heap_ref [of h a "ProxyObj p" b] by (auto simp: refs_def)

lemma wf_heap_cause:
  "wf_heap h \<Longrightarrow> lookup h a = Some (ProxyObj p) \<Longrightarrow> cause p = Some b \<Longrightarrow> b < a"
  using wf_heap_ref [of h a "ProxyObj p" b] by (auto simp: refs_def)

lemma wf_heap_extends:
  "wf_heap h \<Longrightarrow> lookup h a = Some (ProxyObj p) \<Longrightarrow> Some b \<in> set (extends p) \<Longrightarrow> b < a"
  using wf_heap_ref [of h a "ProxyObj p" b] by (auto simp: refs_def)

lemma wf_heap_refs:
  assumes "wf_heap h" and "lookup h a = Some ob" and "r \<in> set (refs ob)"
  shows "below (length h) r"
proof (cases r)
  case None
  then show ?thesis by (simp add: below_def)
next
  case (Some b)
  with assms have "b < a" by (auto dest: wf_heap_ref)
  moreover from assms(2) have "a < length h" by (simp add: lookup_def split: if_splits)
  ultimately show ?thesis using Some by (simp add: below_def)
qed

lemma wf_heap_alloc:
  "wf_heap h \<Longrightarrow> list_all (below (length h)) (refs ob) \<Longrightarrow> wf_heap (h @ [ob])"
  by (auto simp: wf_heap_iff nth_append list_all_iff less_Suc_eq)

section \<open>The walks return\<close>

lemma is_each_returns:
  "(\<And>a. Some a \<in> set ws \<Longrightarrow> is_loop n h a t c \<noteq> None) \<Longrightarrow> is_each n h ws t c \<noteq> None"
proof (induction ws)
  case Nil
  then show ?case by simp
next
  case (Cons w ws)
  have rest: "is_each n h ws t c \<noteq> None"
    by (rule Cons.IH) (simp add: Cons.prems)
  show ?case
  proof (cases w)
    case None
    with rest show ?thesis by simp
  next
    case (Some e)
    with Cons.prems obtain r where "is_loop n h e t c = Some r" by fastforce
    with Some rest show ?thesis by (cases r) simp_all
  qed
qed

lemma Is_range_returns:
  "(\<And>a. Some a \<in> set exts \<Longrightarrow> is_loop n h a t (isComparable h t) \<noteq> None) \<Longrightarrow>
   Is_range n h exts (Some t) \<noteq> None"
proof (induction exts)
  case Nil
  then show ?case by simp
next
  case (Cons ext exts)
  have rest: "Is_range n h exts (Some t) \<noteq> None"
    by (rule Cons.IH) (simp add: Cons.prems)
  show ?case
  proof (cases ext)
    case None
    with rest show ?thesis by simp
  next
    case (Some e)
    with Cons.prems obtain r where "is_loop n h e t (isComparable h t) = Some r" by fastforce
    with Some rest show ?thesis by (cases r) simp_all
  qed
qed

lemma is_loop_returns:
  assumes "wf_heap h"
  shows "e < length h \<Longrightarrow> e < n \<Longrightarrow> is_loop n h e t c \<noteq> None"
proof (induction n arbitrary: e c)
  case 0
  then show ?case by simp
next
  case (Suc n)
  have below: "is_loop n h a t c' \<noteq> None" if "a < e" for a c'
    using that Suc.prems by (intro Suc.IH) auto
  show ?case
  proof (cases "c \<and> e = t")
    case True
    then show ?thesis by simp
  next
    case False
    from Suc.prems obtain ob where ob: "lookup h e = Some ob"
      by (simp add: lookup_def)
    show ?thesis
    proof (cases ob)
      case (ErrObj ty cm s u)
      show ?thesis
      proof (cases u)
        case (UnwrapOne w)
        show ?thesis
        proof (cases w)
          case None
          with False ob ErrObj UnwrapOne show ?thesis by auto
        next
          case (Some e')
          with assms ob ErrObj UnwrapOne have "e' < e" by (auto dest: wf_heap_one)
          then have "is_loop n h e' t c \<noteq> None" by (rule below)
          with False ob ErrObj UnwrapOne Some show ?thesis by auto
        qed
      next
        case (UnwrapMany ws)
        have "is_loop n h a t c \<noteq> None" if "Some a \<in> set ws" for a
        proof -
          from assms ob ErrObj UnwrapMany that have "a < e" by (auto dest: wf_heap_many)
          then show ?thesis by (rule below)
        qed
        then have "is_each n h ws t c \<noteq> None" by (rule is_each_returns)
        with False ob ErrObj UnwrapMany show ?thesis by auto
      qed
    next
      case (ProxyObj p)
      have "is_loop n h a t (isComparable h t) \<noteq> None" if "Some a \<in> set (extends p)" for a
      proof -
        from assms ob ProxyObj that have "a < e" by (auto dest: wf_heap_extends)
        then show ?thesis by (rule below)
      qed
      then have rng: "Is_range n h (extends p) (Some t) \<noteq> None"
        by (rule Is_range_returns)
      have bs: "is_loop n h e' t c \<noteq> None" if "base p = Some e'" for e'
      proof -
        from assms ob ProxyObj that have "e' < e" by (auto dest: wf_heap_base)
        then show ?thesis by (rule below)
      qed
      from False ob ProxyObj rng bs show ?thesis
        by (auto simp: deref_def split: option.splits bool.splits)
    qed
  qed
qed

lemma errors_Is_returns:
  assumes "wf_heap h" and "\<And>a. err = Some a \<Longrightarrow> a < length h \<and> a < n"
  shows "errors_Is n h err target \<noteq> None"
proof (cases err)
  case None
  then show ?thesis by simp
next
  case (Some a)
  with assms(2) have "a < length h" and "a < n" by simp_all
  with assms(1) have "is_loop n h a t c \<noteq> None" for t c by (rule is_loop_returns)
  with Some show ?thesis by (cases target) simp_all
qed

lemma Is_range_result:
  "(\<And>ext. ext \<in> set exts \<Longrightarrow> errors_Is n h ext target \<noteq> None) \<Longrightarrow>
   Is_range n h exts target = Some (\<exists>ext\<in>set exts. errors_Is n h ext target = Some True)"
proof (induction exts)
  case Nil
  then show ?case by simp
next
  case (Cons ext exts)
  from Cons.prems obtain r where r: "errors_Is n h ext target = Some r"
    by (meson list.set_intros(1) not_Some_eq)
  have "Is_range n h exts target = Some (\<exists>ext\<in>set exts. errors_Is n h ext target = Some True)"
    by (rule Cons.IH) (simp add: Cons.prems del: errors_Is.simps)
  with r show ?case
    by (cases r) (simp_all del: errors_Is.simps)
qed

lemma Is_result:
  assumes "wf_heap h" and "deref h p = Some pr" and "p \<le> n"
  shows "Is n h p (Some t)
           = Some (\<exists>ext\<in>set (extends pr). errors_Is n h ext (Some t) = Some True)"
proof -
  from assms(2) have lk: "lookup h p = Some (ProxyObj pr)" and p: "p < length h"
    by (simp_all add: deref_Some_lookup deref_Some_less)
  have "errors_Is n h ext (Some t) \<noteq> None" if "ext \<in> set (extends pr)" for ext
  proof (rule errors_Is_returns [OF assms(1)])
    fix a assume "ext = Some a"
    with that assms(1) lk have "a < p" by (auto dest: wf_heap_extends)
    with p assms(3) show "a < length h \<and> a < n" by simp
  qed
  then have "Is_range n h (extends pr) (Some t)
               = Some (\<exists>ext\<in>set (extends pr). errors_Is n h ext (Some t) = Some True)"
    by (rule Is_range_result)
  with assms(2) show ?thesis by simp
qed

section \<open>A walk reads the store below its start only\<close>

lemma is_each_frame:
  "(\<And>a. Some a \<in> set ws \<Longrightarrow> is_loop n h' a t c = is_loop n h a t c) \<Longrightarrow>
   is_each n h' ws t c = is_each n h ws t c"
  by (induction ws) (auto split: option.splits bool.splits)

lemma Is_range_frame:
  "(\<And>a. Some a \<in> set exts \<Longrightarrow> is_loop n h' a t c = is_loop n h a t c) \<Longrightarrow>
   isComparable h' t = c \<Longrightarrow> isComparable h t = c \<Longrightarrow>
   Is_range n h' exts (Some t) = Is_range n h exts (Some t)"
  by (induction exts) (auto split: option.splits bool.splits)

lemma is_loop_frame:
  assumes "wf_heap h" and "\<forall>a<k. lookup h' a = lookup h a"
    and "isComparable h' t = isComparable h t"
  shows "e < k \<Longrightarrow> is_loop n h' e t c = is_loop n h e t c"
proof (induction n arbitrary: e c)
  case 0
  then show ?case by simp
next
  case (Suc n)
  from assms(2) Suc.prems have same: "lookup h' e = lookup h e" by simp
  have below: "is_loop n h' a t c' = is_loop n h a t c'" if "a < e" for a c'
    using that Suc.prems by (intro Suc.IH) auto
  show ?case
  proof (cases "lookup h e")
    case None
    with same show ?thesis by simp
  next
    case (Some ob)
    show ?thesis
    proof (cases ob)
      case (ErrObj ty cm s u)
      show ?thesis
      proof (cases u)
        case (UnwrapOne w)
        show ?thesis
        proof (cases w)
          case None
          with same Some ErrObj UnwrapOne show ?thesis by simp
        next
          case (Some e')
          with assms(1) \<open>lookup h e = Some ob\<close> ErrObj UnwrapOne have "e' < e"
            by (auto dest: wf_heap_one)
          then have "is_loop n h' e' t c = is_loop n h e' t c" by (rule below)
          with same \<open>lookup h e = Some ob\<close> ErrObj UnwrapOne Some show ?thesis by simp
        qed
      next
        case (UnwrapMany ws)
        have "is_loop n h' a t c = is_loop n h a t c" if "Some a \<in> set ws" for a
        proof -
          from assms(1) Some ErrObj UnwrapMany that have "a < e" by (auto dest: wf_heap_many)
          then show ?thesis by (rule below)
        qed
        then have "is_each n h' ws t c = is_each n h ws t c" by (rule is_each_frame)
        with same Some ErrObj UnwrapMany show ?thesis by simp
      qed
    next
      case (ProxyObj p)
      have ext: "is_loop n h' a t (isComparable h t) = is_loop n h a t (isComparable h t)"
        if "Some a \<in> set (extends p)" for a
      proof -
        from assms(1) Some ProxyObj that have "a < e" by (auto dest: wf_heap_extends)
        then show ?thesis by (rule below)
      qed
      have rng: "Is_range n h' (extends p) (Some t) = Is_range n h (extends p) (Some t)"
        by (rule Is_range_frame [where c = "isComparable h t"]) (simp_all add: ext assms(3))
      have bs: "is_loop n h' e' t c = is_loop n h e' t c" if "base p = Some e'" for e'
      proof -
        from assms(1) Some ProxyObj that have "e' < e" by (auto dest: wf_heap_base)
        then show ?thesis by (rule below)
      qed
      from same Some ProxyObj rng bs show ?thesis
        by (auto simp: deref_def split: option.splits bool.splits)
    qed
  qed
qed

lemma Is_range_frame_wf:
  assumes "wf_heap h" and "\<forall>a<k. lookup h' a = lookup h a"
    and "\<And>t. isComparable h' t = isComparable h t"
    and "\<And>a. Some a \<in> set exts \<Longrightarrow> a < k"
  shows "Is_range n h' exts target = Is_range n h exts target"
proof (cases target)
  case None
  show ?thesis unfolding None by (induction exts) (simp_all split: option.splits)
next
  case (Some t)
  show ?thesis unfolding Some
  proof (rule Is_range_frame [where c = "isComparable h t"])
    show "is_loop n h' a t (isComparable h t) = is_loop n h a t (isComparable h t)"
      if "Some a \<in> set exts" for a
      using assms(1,2) assms(3) [of t] assms(4) [OF that] by (rule is_loop_frame)
  qed (simp_all add: assms(3))
qed

lemma Is_base_irrelevant:
  assumes "wf_heap h" and "deref h p = Some pr"
  shows "Is n (h[p := ProxyObj (pr\<lparr>base := b\<rparr>)]) p target = Is n h p target"
proof -
  let ?h' = "h[p := ProxyObj (pr\<lparr>base := b\<rparr>)]"
  from assms(2) have lk: "lookup h p = Some (ProxyObj pr)" and p: "p < length h"
    by (simp_all add: deref_Some_lookup deref_Some_less)
  have d': "deref ?h' p = Some (pr\<lparr>base := b\<rparr>)"
    using p by (simp add: deref_def lookup_update)
  have agree: "\<forall>a<p. lookup ?h' a = lookup h a"
    by (simp add: lookup_update)
  have cmp: "isComparable ?h' t = isComparable h t" for t
    using lk by (simp add: isComparable_def lookup_update comparable_def)
  have "Is_range n ?h' (extends pr) target = Is_range n h (extends pr) target"
    using assms(1) agree cmp
  proof (rule Is_range_frame_wf)
    fix a assume "Some a \<in> set (extends pr)"
    with assms(1) lk show "a < p" by (auto dest: wf_heap_extends)
  qed
  with d' assms(2) show ?thesis by simp
qed

section \<open>Messages, well-formedness of new stores, and the walk of \<^verbatim>\<open>errors.As\<close>\<close>

lemma Error_mono: "Error n h e = Some m \<Longrightarrow> n \<le> n' \<Longrightarrow> Error n' h e = Some m"
proof (induction n arbitrary: n' e)
  case 0
  then show ?case by simp
next
  case (Suc n)
  then obtain k where k: "n' = Suc k" and nk: "n \<le> k" by (cases n') auto
  from Suc.prems(1) show ?case unfolding k
    by (auto split: option.splits obj.splits intro: Suc.IH [OF _ nk])
qed

lemma Error_returns:
  assumes "wf_heap h"
  shows "e < length h \<Longrightarrow> e < n \<Longrightarrow> Error n h e \<noteq> None"
proof (induction n arbitrary: e)
  case 0
  then show ?case by simp
next
  case (Suc n)
  from Suc.prems obtain ob where ob: "lookup h e = Some ob" by (simp add: lookup_def)
  show ?case
  proof (cases ob)
    case (ErrObj ty c s u)
    with ob show ?thesis by simp
  next
    case (ProxyObj p)
    have "Error n h b \<noteq> None" if "base p = Some b" for b
    proof -
      from assms ob ProxyObj that have "b < e" by (auto dest: wf_heap_base)
      with Suc.prems show ?thesis by (intro Suc.IH) auto
    qed
    with ob ProxyObj show ?thesis by (auto split: option.splits)
  qed
qed

lemma verb_s_Error:
  "Error n h c = Some cm \<Longrightarrow> verb_s quote (Suc n) h c = Some cm"
  by (cases n) (auto simp: Write_def deref_def rune_def split: option.splits obj.splits)



lemma wf_heap_New: "wf_heap h \<Longrightarrow> wf_heap (snd (New h text))"
  by (auto simp: New_def errors_New_def alloc_def refs_def below_def
      intro!: wf_heap_alloc simp del: append_assoc)

lemma wf_heap_Wrap: "wf_heap h \<Longrightarrow> below (length h) err \<Longrightarrow> wf_heap (snd (Wrap h err))"
  by (auto simp: Wrap_def alloc_def refs_def below_def intro!: wf_heap_alloc)

lemma wf_heap_WithCause:
  assumes "wf_heap h" and "below (length h) c" and "WithCause h p c = Some (p', h')"
  shows "wf_heap h'"
proof (cases c)
  case None
  with assms show ?thesis by (simp add: WithCause_def)
next
  case (Some a)
  with assms(3) obtain pr where d: "deref h p = Some pr"
    and h': "h' = h @ [ProxyObj (pr\<lparr>cause := c, extends := [Some p] @ extends pr\<rparr>)]"
    by (auto simp: WithCause_def alloc_def split: option.splits)
  from d have lk: "lookup h p = Some (ProxyObj pr)" and p: "p < length h"
    by (simp_all add: deref_Some_lookup deref_Some_less)
  have old: "below (length h) r" if "r \<in> set (refs (ProxyObj pr))" for r
    using assms(1) lk that by (rule wf_heap_refs)
  show ?thesis unfolding h'
    by (rule wf_heap_alloc [OF assms(1)])
       (use old assms(2) p in \<open>auto simp: list_all_iff refs_def below_def\<close>)
qed

lemma Format_other_verb:
  "verb \<noteq> rune CHR ''v'' \<Longrightarrow> verb \<noteq> rune CHR ''s'' \<Longrightarrow> verb \<noteq> rune CHR ''q'' \<Longrightarrow>
   Format quote n h p s verb = Some s"
  by simp

lemma as_post_False: "as_post h target (False, target') \<longleftrightarrow> target' = target"
  by (simp add: as_post_def)

lemma As_range_post:
  assumes "\<And>a target r. as_loop n h a target = Some r \<Longrightarrow> as_post h target r"
  shows "As_range n h exts target = Some r \<Longrightarrow> as_post h target r"
proof (induction exts)
  case Nil
  then show ?case by (auto simp: as_post_def)
next
  case (Cons ext exts)
  show ?case
  proof (cases "errors_As n h ext target")
    case None
    with Cons.prems show ?thesis by simp
  next
    case (Some r1)
    obtain ok target' where r1: "r1 = (ok, target')" by (cases r1)
    have post1: "as_post h target r1"
    proof (cases ext)
      case None
      with Some show ?thesis by (auto simp: as_post_def)
    next
      case (Some a)
      with \<open>errors_As n h ext target = Some r1\<close> show ?thesis
        by (auto intro: assms)
    qed
    show ?thesis
    proof (cases ok)
      case True
      with Cons.prems Some r1 have "r = r1" by (simp del: errors_As.simps)
      with post1 show ?thesis by simp
    next
      case False
      with post1 r1 have "target' = target" by (simp add: as_post_def)
      with Cons.prems Some r1 False have "As_range n h exts target = Some r"
        by (simp del: errors_As.simps)
      then show ?thesis by (rule Cons.IH)
    qed
  qed
qed

lemma as_each_post:
  assumes "\<And>a target r. as_loop n h a target = Some r \<Longrightarrow> as_post h target r"
  shows "as_each n h ws target = Some r \<Longrightarrow> as_post h target r"
proof (induction ws)
  case Nil
  then show ?case by (auto simp: as_post_def)
next
  case (Cons w ws)
  show ?case
  proof (cases w)
    case None
    with Cons.prems have "as_each n h ws target = Some r" by simp
    then show ?thesis by (rule Cons.IH)
  next
    case (Some e)
    show ?thesis
    proof (cases "as_loop n h e target")
      case None
      with Cons.prems Some show ?thesis by simp
    next
      case r1: (Some r1)
      obtain ok target' where r1': "r1 = (ok, target')" by (cases r1)
      from r1 have post1: "as_post h target r1" by (rule assms)
      show ?thesis
      proof (cases ok)
        case True
        with Cons.prems Some r1 r1' have "r = r1" by simp
        with post1 show ?thesis by simp
      next
        case False
        with post1 r1' have "target' = target" by (simp add: as_post_def)
        with Cons.prems Some r1 r1' False have "as_each n h ws target = Some r" by simp
        then show ?thesis by (rule Cons.IH)
      qed
    qed
  qed
qed

lemma as_loop_post: "as_loop n h e target = Some r \<Longrightarrow> as_post h target r"
proof (induction n arbitrary: e target r)
  case 0
  then show ?case by simp
next
  case (Suc n)
  from Suc.prems obtain ob where ob: "lookup h e = Some ob"
    by (auto split: option.splits)
  show ?case
  proof (cases "type_of ob \<in> assignable target")
    case True
    with Suc.prems ob have "r = (True, target\<lparr>content := Some e\<rparr>)" by simp
    with ob True show ?thesis unfolding as_post_def by auto
  next
    case False
    show ?thesis
    proof (cases ob)
      case (ErrObj ty c s u)
      show ?thesis
      proof (cases u)
        case (UnwrapOne w)
        show ?thesis
        proof (cases w)
          case None
          with Suc.prems ob False ErrObj UnwrapOne have "r = (False, target)" by simp
          then show ?thesis by (simp add: as_post_def)
        next
          case (Some e')
          with Suc.prems ob False ErrObj UnwrapOne have "as_loop n h e' target = Some r"
            by simp
          then show ?thesis by (rule Suc.IH)
        qed
      next
        case (UnwrapMany ws)
        with Suc.prems ob False ErrObj have "as_each n h ws target = Some r" by simp
        with Suc.IH show ?thesis by (rule as_each_post)
      qed
    next
      case (ProxyObj p)
      show ?thesis
      proof (cases "As n h e target")
        case None
        with Suc.prems ob False ProxyObj show ?thesis by simp
      next
        case (Some r1)
        obtain ok target' where r1: "r1 = (ok, target')" by (cases r1)
        from Some have "As_range n h (extends p) target = Some r1"
          using ob ProxyObj by (simp add: deref_def)
        with Suc.IH have post1: "as_post h target r1" by (rule As_range_post)
        show ?thesis
        proof (cases ok)
          case True
          with Suc.prems ob False ProxyObj Some r1 have "r = r1"
            by (simp del: As.simps)
          with post1 show ?thesis by simp
        next
          case nok: False
          with post1 r1 have t': "target' = target" by (simp add: as_post_def)
          show ?thesis
          proof (cases "base p")
            case None
            with Suc.prems ob False ProxyObj Some r1 nok t' have "r = (False, target)"
              by (simp del: As.simps)
            then show ?thesis by (simp add: as_post_def)
          next
            case (Some e')
            with Suc.prems ob False ProxyObj \<open>As n h e target = Some r1\<close> r1 nok t'
            have "as_loop n h e' target = Some r" by (simp del: As.simps)
            then show ?thesis by (rule Suc.IH)
          qed
        qed
      qed
    qed
  qed
qed

lemma errors_As_post: "errors_As n h err target = Some r \<Longrightarrow> as_post h target r"
proof (cases err)
  case None
  assume "errors_As n h err target = Some r"
  with None have "r = (False, target)" by simp
  then show ?thesis by (simp add: as_post_def)
next
  case (Some a)
  assume "errors_As n h err target = Some r"
  with Some have "as_loop n h a target = Some r" by simp
  then show ?thesis by (rule as_loop_post)
qed

lemma As_range_returns:
  "(\<And>a target. Some a \<in> set exts \<Longrightarrow> as_loop n h a target \<noteq> None) \<Longrightarrow>
   As_range n h exts target \<noteq> None"
proof (induction exts arbitrary: target)
  case Nil
  then show ?case by simp
next
  case (Cons ext exts)
  have "errors_As n h ext target \<noteq> None"
    by (cases ext) (simp_all add: Cons.prems)
  then obtain ok target' where r: "errors_As n h ext target = Some (ok, target')"
    by fastforce
  have "As_range n h exts target' \<noteq> None"
    by (rule Cons.IH) (simp add: Cons.prems)
  with r show ?case by (cases ok) (simp_all del: errors_As.simps)
qed

lemma as_each_returns:
  "(\<And>a target. Some a \<in> set ws \<Longrightarrow> as_loop n h a target \<noteq> None) \<Longrightarrow>
   as_each n h ws target \<noteq> None"
proof (induction ws arbitrary: target)
  case Nil
  then show ?case by simp
next
  case (Cons w ws)
  show ?case
  proof (cases w)
    case None
    have "as_each n h ws target \<noteq> None"
      by (rule Cons.IH) (simp add: Cons.prems)
    with None show ?thesis by simp
  next
    case (Some e)
    with Cons.prems obtain ok target' where r: "as_loop n h e target = Some (ok, target')"
      by fastforce
    have "as_each n h ws target' \<noteq> None"
      by (rule Cons.IH) (simp add: Cons.prems)
    with Some r show ?thesis by (cases ok) simp_all
  qed
qed

lemma as_loop_returns:
  assumes "wf_heap h"
  shows "e < length h \<Longrightarrow> e < n \<Longrightarrow> as_loop n h e target \<noteq> None"
proof (induction n arbitrary: e target)
  case 0
  then show ?case by simp
next
  case (Suc n)
  from Suc.prems obtain ob where ob: "lookup h e = Some ob"
    by (simp add: lookup_def)
  show ?case
  proof (cases ob)
    case (ErrObj ty c s u)
    show ?thesis
    proof (cases u)
      case (UnwrapOne w)
      show ?thesis
      proof (cases w)
        case None
        with ob ErrObj UnwrapOne show ?thesis by auto
      next
        case (Some e')
        with assms ob ErrObj UnwrapOne have "e' < e" by (auto dest: wf_heap_one)
        with Suc.prems have "as_loop n h e' target \<noteq> None" by (intro Suc.IH) auto
        with ob ErrObj UnwrapOne Some show ?thesis by auto
      qed
    next
      case (UnwrapMany ws)
      have "as_loop n h a tg \<noteq> None" if "Some a \<in> set ws" for a tg
      proof -
        from assms ob ErrObj UnwrapMany that have "a < e" by (auto dest: wf_heap_many)
        with Suc.prems show ?thesis by (intro Suc.IH) auto
      qed
      then have "as_each n h ws target \<noteq> None" by (rule as_each_returns)
      with ob ErrObj UnwrapMany show ?thesis by auto
    qed
  next
    case (ProxyObj p)
    have "as_loop n h a tg \<noteq> None" if "Some a \<in> set (extends p)" for a tg
    proof -
      from assms ob ProxyObj that have "a < e" by (auto dest: wf_heap_extends)
      with Suc.prems show ?thesis by (intro Suc.IH) auto
    qed
    then have rng: "As_range n h (extends p) target \<noteq> None"
      by (rule As_range_returns)
    have bs: "as_loop n h e' tg \<noteq> None" if "base p = Some e'" for e' tg
    proof -
      from assms ob ProxyObj that have "e' < e" by (auto dest: wf_heap_base)
      with Suc.prems show ?thesis by (intro Suc.IH) auto
    qed
    from ob ProxyObj rng bs show ?thesis
      by (auto simp: deref_def split: option.splits bool.splits)
  qed
qed

lemma errors_As_returns:
  assumes "wf_heap h" and "\<And>a. err = Some a \<Longrightarrow> a < length h \<and> a < n"
  shows "errors_As n h err target \<noteq> None"
proof (cases err)
  case None
  then show ?thesis by simp
next
  case (Some a)
  with assms(2) have "a < length h" and "a < n" by simp_all
  with assms(1) have "as_loop n h a target \<noteq> None" by (rule as_loop_returns)
  with Some show ?thesis by simp
qed

lemma As_range_first:
  assumes "\<And>ext. ext \<in> set exts \<Longrightarrow> errors_As n h ext target \<noteq> None"
  shows "As_range n h exts target =
           (case find (\<lambda>ext. map_option fst (errors_As n h ext target) = Some True) exts of
              None \<Rightarrow> Some (False, target)
            | Some ext \<Rightarrow> errors_As n h ext target)"
proof -
  define P where "P = (\<lambda>ext. map_option fst (errors_As n h ext target) = Some True)"
  have "As_range n h exts target =
          (case find P exts of None \<Rightarrow> Some (False, target)
           | Some ext \<Rightarrow> errors_As n h ext target)"
    using assms
  proof (induction exts)
    case Nil
    then show ?case by simp
  next
    case (Cons ext exts)
    from Cons.prems obtain ok target' where r: "errors_As n h ext target = Some (ok, target')"
      by (metis list.set_intros(1) not_Some_eq surj_pair)
    then have P: "P ext = ok" by (simp add: P_def del: errors_As.simps)
    have ih: "As_range n h exts target =
          (case find P exts of None \<Rightarrow> Some (False, target)
           | Some ext \<Rightarrow> errors_As n h ext target)"
      by (rule Cons.IH) (simp add: Cons.prems del: errors_As.simps)
    show ?case
    proof (cases ok)
      case True
      with r P show ?thesis by (simp del: errors_As.simps)
    next
      case False
      from r have "as_post h target (ok, target')" by (rule errors_As_post)
      with False have "target' = target" by (simp add: as_post_def)
      with r False P ih show ?thesis by (simp del: errors_As.simps)
    qed
  qed
  then show ?thesis by (simp only: P_def)
qed

lemma errors_As_assignable:
  "lookup h e = Some ob \<Longrightarrow> type_of ob \<in> assignable target \<Longrightarrow>
   errors_As (Suc n) h (Some e) target = Some (True, target\<lparr>content := Some e\<rparr>)"
  by simp

section \<open>Walks through a proxy\<close>

lemma is_loop_plain_proxy:
  assumes "lookup h p = Some (ProxyObj pr)" and "extends pr = []" and "base pr = Some b"
    and "\<not> (c \<and> p = t)"
  shows "is_loop (Suc n) h p t c = is_loop n h b t c"
  using assms by (auto simp: deref_def)

lemma is_loop_same: "is_loop (Suc n) h e e True = Some True"
  by simp

lemma isComparable_ErrObj: "lookup h t = Some (ErrObj ty c s u) \<Longrightarrow> isComparable h t = c"
  by (simp add: isComparable_def comparable_def)

lemma Wrap_walk:
  fixes h :: heap and err :: addr
  defines "h' \<equiv> h @ [ProxyObj \<lparr>base = Some err, cause = None, extends = []\<rparr>]"
  shows "t \<noteq> length h \<Longrightarrow>
           errors_Is (Suc n) h' (Some (length h)) (Some t) = errors_Is n h' (Some err) (Some t)"
    and "isComparable h err \<Longrightarrow>
           errors_Is (Suc (Suc n)) h' (Some (length h)) (Some err) = Some True"
proof -
  have lp: "lookup h' (length h) = Some (ProxyObj \<lparr>base = Some err, cause = None, extends = []\<rparr>)"
    by (simp add: h'_def lookup_alloc)
  show "errors_Is (Suc n) h' (Some (length h)) (Some t) = errors_Is n h' (Some err) (Some t)"
    if "t \<noteq> length h"
    using that is_loop_plain_proxy [OF lp, of err "isComparable h' t" t n] by simp
  show "errors_Is (Suc (Suc n)) h' (Some (length h)) (Some err) = Some True"
    if c: "isComparable h err"
  proof (cases "err = length h")
    case True
    with lp have "isComparable h' err" by (simp add: isComparable_proxy)
    with True show ?thesis by simp
  next
    case False
    have "isComparable h' err"
    proof (cases "err < length h")
      case True
      with c show ?thesis by (simp add: h'_def isComparable_alloc)
    next
      case False
      with \<open>err \<noteq> length h\<close> show ?thesis
        by (simp add: h'_def isComparable_def lookup_def)
    qed
    moreover from False
    have "is_loop (Suc (Suc n)) h' (length h) err True = is_loop (Suc n) h' err err True"
      using is_loop_plain_proxy [OF lp, of err True err "Suc n"] by simp
    ultimately show ?thesis by (simp del: is_loop.simps add: is_loop_same)
  qed
qed

lemma New_walk:
  fixes h :: heap and ty :: nat and t :: string and u :: unwraps
  defines "h' \<equiv> h @ [ErrObj ty True t u, ProxyObj \<lparr>base = Some (length h), cause = None, extends = []\<rparr>]"
  shows "errors_Is (Suc (Suc n)) h' (Some (Suc (length h))) (Some (length h)) = Some True"
    and "Unwrap h' (Suc (length h)) = Some (Some (length h))"
    and "lookup h' (length h) = Some (ErrObj ty True t u)"
proof -
  have lp: "lookup h' (Suc (length h))
      = Some (ProxyObj \<lparr>base = Some (length h), cause = None, extends = []\<rparr>)"
    by (simp add: h'_def lookup_def nth_append)
  show lb: "lookup h' (length h) = Some (ErrObj ty True t u)"
    by (simp add: h'_def lookup_def nth_append)
  then have cmp: "isComparable h' (length h)" by (simp add: isComparable_ErrObj)
  have "is_loop (Suc (Suc n)) h' (Suc (length h)) (length h) True
      = is_loop (Suc n) h' (length h) (length h) True"
    using is_loop_plain_proxy [OF lp, of "length h" True "length h" "Suc n"] by simp
  with cmp show "errors_Is (Suc (Suc n)) h' (Some (Suc (length h))) (Some (length h)) = Some True"
    by (simp del: is_loop.simps add: is_loop_same)
  from lp show "Unwrap h' (Suc (length h)) = Some (Some (length h))"
    by (simp add: Unwrap_def deref_def)
qed




section \<open>The claims\<close>

text \<open>
  C1. For a proxy \<open>p\<close> in a well-formed store and fuel that covers the store: the hook
  \<^verbatim>\<open>p.Is(target)\<close> returns false for a nil target; for a non-nil target it returns, and
  returns true exactly when \<^verbatim>\<open>errors.Is(ext, target)\<close> is true for some entry \<open>ext\<close> of
  \<open>p\<close>'s \<open>extends\<close> list; and putting any other value into \<open>p\<close>'s \<open>base\<close> field
  leaves the result of the hook as it is.
\<close>

theorem Is_hook:
  assumes "wf_heap h" and "deref h p = Some pr" and "length h \<le> n"
  shows "Is n h p None = Some False \<and>
         (\<forall>t. Is n h p (Some t)
                = Some (\<exists>ext\<in>set (extends pr). errors_Is n h ext (Some t) = Some True)) \<and>
         (\<forall>b target. Is n (h[p := ProxyObj (pr\<lparr>base := b\<rparr>)]) p target = Is n h p target)"
proof (intro conjI allI)
  show "Is n h p None = Some False" by simp
next
  fix t
  from assms(2) have "p < length h" by (rule deref_Some_less)
  with assms(3) have "p \<le> n" by simp
  with assms(1,2) show "Is n h p (Some t)
      = Some (\<exists>ext\<in>set (extends pr). errors_Is n h ext (Some t) = Some True)"
    by (rule Is_result)
next
  fix b target
  from assms(1,2)
  show "Is n (h[p := ProxyObj (pr\<lparr>base := b\<rparr>)]) p target = Is n h p target"
    by (rule Is_base_irrelevant)
qed

theorem Is_hook_witness:
  "wf_heap store_user \<and>
   deref store_user 3 = Some \<lparr>base = Some 1, cause = None, extends = [Some 0]\<rparr> \<and>
   length store_user \<le> 4 \<and>
   Is 4 store_user 3 None = Some False \<and>
   Is 4 store_user 3 (Some 0) = Some True \<and>
   Is 4 store_user 3 (Some 1) = Some False"
proof -
  have wf: "wf_heap store_user"
    by (simp add: wf_heap_def store_user_def refs_def below_def)
  have d: "deref store_user 3 = Some \<lparr>base = Some 1, cause = None, extends = [Some 0]\<rparr>"
    by (simp add: deref_def lookup_def store_user_def)
  have l: "length store_user \<le> 4"
    by (simp add: store_user_def)
  have e0: "errors_Is 4 store_user (Some 0) (Some 0) = Some True"
    by (simp add: eval_nat_numeral isComparable_def comparable_def lookup_def store_user_def)
  have e1: "errors_Is 4 store_user (Some 0) (Some 1) = Some False"
    by (simp add: eval_nat_numeral isComparable_def comparable_def lookup_def store_user_def)
  from Is_hook [OF wf d l] e0 e1 wf d l show ?thesis by simp
qed

text \<open>
  C2. For a proxy \<open>p\<close> and a non-nil cause \<open>c\<close>, \<^verbatim>\<open>p.WithCause(c)\<close> returns a new
  instance, at an address that was free and differs from \<open>p\<close>, whose \<^verbatim>\<open>Cause()\<close> is
  \<open>c\<close>, whose \<open>extends\<close> list is \<open>p\<close> followed by the entries \<open>p\<close> had, and whose base
  is that of \<open>p\<close>; the receiver, like every object of the store, is as it was.
\<close>

theorem WithCause_new_instance:
  assumes "deref h p = Some pr"
  shows "\<exists>p' h'. WithCause h p (Some c) = Some (p', h') \<and>
           p' \<noteq> p \<and> lookup h p' = None \<and>
           Cause h' p' = Some (Some c) \<and>
           map_option extends (deref h' p') = Some (Some p # extends pr) \<and>
           Unwrap h' p' = Some (base pr) \<and>
           deref h' p = Some pr \<and> take (length h) h' = h"
proof -
  from assms have p: "p < length h" by (rule deref_Some_less)
  let ?h' = "h @ [ProxyObj (pr\<lparr>cause := Some c, extends := [Some p] @ extends pr\<rparr>)]"
  have "WithCause h p (Some c) = Some (length h, ?h')"
    using assms by (simp add: WithCause_def alloc_def)
  moreover have "deref ?h' p = Some pr"
    using assms p by (simp add: deref_alloc_old)
  ultimately show ?thesis
    using p by (simp add: lookup_fresh Cause_def Unwrap_def deref_alloc_new)
qed

theorem WithCause_new_instance_witness:
  "deref store_user 3 = Some \<lparr>base = Some 1, cause = None, extends = [Some 0]\<rparr> \<and>
   WithCause store_user 3 (Some 0)
     = Some (4, store_user @ [ProxyObj \<lparr>base = Some 1, cause = Some 0, extends = [Some 3, Some 0]\<rparr>]) \<and>
   (\<exists>p' h'. WithCause store_user 3 (Some 0) = Some (p', h') \<and>
      Cause h' p' = Some (Some 0) \<and>
      map_option extends (deref h' p') = Some [Some 3, Some 0] \<and>
      deref h' 3 = Some \<lparr>base = Some 1, cause = None, extends = [Some 0]\<rparr>)"
proof -
  have d: "deref store_user 3 = Some \<lparr>base = Some 1, cause = None, extends = [Some 0]\<rparr>"
    by (simp add: deref_def lookup_def store_user_def)
  have w: "WithCause store_user 3 (Some 0)
     = Some (4, store_user @ [ProxyObj \<lparr>base = Some 1, cause = Some 0, extends = [Some 3, Some 0]\<rparr>])"
    by (simp add: WithCause_def d alloc_def) (simp add: store_user_def)
  from WithCause_new_instance [OF d, of 0] d w show ?thesis by auto
qed

text \<open>
  C3. Attaching a non-nil cause \<open>c\<close> to a proxy \<open>x\<close> preserves its identity: on the
  result, the \<^verbatim>\<open>Is\<close> hook with target \<open>x\<close> returns true as soon as it has one unit of
  fuel, so does \<^verbatim>\<open>errors.Is\<close>, and \<^verbatim>\<open>Cause()\<close> returns \<open>c\<close>.
\<close>

theorem WithCause_preserves_identity:
  assumes "deref h x = Some pr"
  shows "\<exists>x' h'. WithCause h x (Some c) = Some (x', h') \<and>
           Is (Suc n) h' x' (Some x) = Some True \<and>
           errors_Is (Suc (Suc n)) h' (Some x') (Some x) = Some True \<and>
           Cause h' x' = Some (Some c)"
proof -
  let ?h' = "h @ [ProxyObj (pr\<lparr>cause := Some c, extends := [Some x] @ extends pr\<rparr>)]"
  have w: "WithCause h x (Some c) = Some (length h, ?h')"
    using assms by (simp add: WithCause_def alloc_def)
  have cmp: "isComparable ?h' x"
  proof (rule isComparable_proxy)
    from assms have "x < length h" by (rule deref_Some_less)
    with assms show "lookup ?h' x = Some (ProxyObj pr)"
      by (simp add: lookup_alloc deref_Some_lookup)
  qed
  have hook: "Is (Suc n) ?h' (length h) (Some x) = Some True"
    using cmp by (simp add: deref_alloc_new)
  have walk: "errors_Is (Suc (Suc n)) ?h' (Some (length h)) (Some x) = Some True"
    using cmp by (simp add: deref_alloc_new lookup_alloc)
  have "Cause ?h' (length h) = Some (Some c)"
    by (simp add: Cause_def deref_alloc_new)
  with w hook walk show ?thesis by blast
qed

theorem WithCause_preserves_identity_witness:
  "deref store_user 2 = Some \<lparr>base = Some 1, cause = None, extends = []\<rparr> \<and>
   (\<exists>x' h'. WithCause store_user 2 (Some 0) = Some (x', h') \<and>
      Is (Suc 0) h' x' (Some 2) = Some True \<and>
      errors_Is (Suc (Suc 0)) h' (Some x') (Some 2) = Some True \<and>
      Cause h' x' = Some (Some 0))"
proof -
  have d: "deref store_user 2 = Some \<lparr>base = Some 1, cause = None, extends = []\<rparr>"
    by (simp add: deref_def lookup_def store_user_def)
  from WithCause_preserves_identity [OF d, of 0 0] d show ?thesis by simp
qed

text \<open>
  C4. \<^verbatim>\<open>p.Extends(errs...)\<close> keeps the non-nil arguments, in order and with duplicates.
  When none is left it returns \<open>p\<close> itself and the store as it was; otherwise it returns
  a new instance, equal to \<open>p\<close> but for its \<open>extends\<close> list, which is that of \<open>p\<close>
  followed by the non-nil arguments, and \<open>p\<close> is as it was.
\<close>

theorem Extends_appends:
  assumes "deref h p = Some pr"
  shows "nonNilErrs errs = filter (\<lambda>err. err \<noteq> None) errs \<and>
         (if nonNilErrs errs = [] then Extends h p errs = Some (p, h)
          else (\<exists>p' h'. Extends h p errs = Some (p', h') \<and>
                  p' \<noteq> p \<and> lookup h p' = None \<and>
                  deref h' p' = Some (pr\<lparr>extends := extends pr @ nonNilErrs errs\<rparr>) \<and>
                  deref h' p = Some pr \<and> take (length h) h' = h))"
proof -
  from assms have p: "p < length h" by (rule deref_Some_less)
  let ?h' = "h @ [ProxyObj (pr\<lparr>extends := extends pr @ nonNilErrs errs\<rparr>)]"
  have "Extends h p errs = Some (length h, ?h')" if "nonNilErrs errs \<noteq> []"
    using assms that by (simp add: Extends_def alloc_def)
  moreover have "deref ?h' p = Some pr"
    using assms p by (simp add: deref_alloc_old)
  moreover have "Extends h p errs = Some (p, h)" if "nonNilErrs errs = []"
    using that by (simp add: Extends_def)
  ultimately show ?thesis
    using p by (simp add: lookup_fresh deref_alloc_new nonNilErrs_filter)
qed

theorem Extends_appends_witness:
  "deref store_user 3 = Some \<lparr>base = Some 1, cause = None, extends = [Some 0]\<rparr> \<and>
   nonNilErrs [None, Some 1, None, Some 1, Some 0] = [Some 1, Some 1, Some 0] \<and>
   (\<exists>p' h'. Extends store_user 3 [None, Some 1, None, Some 1, Some 0] = Some (p', h') \<and>
      p' \<noteq> 3 \<and>
      deref h' p' = Some \<lparr>base = Some 1, cause = None, extends = [Some 0, Some 1, Some 1, Some 0]\<rparr> \<and>
      deref h' 3 = Some \<lparr>base = Some 1, cause = None, extends = [Some 0]\<rparr>) \<and>
   Extends store_user 3 [None, None] = Some (3, store_user)"
proof -
  have d: "deref store_user 3 = Some \<lparr>base = Some 1, cause = None, extends = [Some 0]\<rparr>"
    by (simp add: deref_def lookup_def store_user_def)
  from Extends_appends [OF d, of "[None, Some 1, None, Some 1, Some 0]"]
    Extends_appends [OF d, of "[None, None]"] d
  show ?thesis by auto
qed

text \<open>
  C5. A nil argument is a no-op and never a fault: \<^verbatim>\<open>Wrap(nil)\<close> returns nil,
  \<^verbatim>\<open>p.WithCause(nil)\<close> returns \<open>p\<close> itself, also when repeated, and \<^verbatim>\<open>p.Extends\<close> with
  no argument or with nil arguments only returns \<open>p\<close> itself; the store is as it was.
\<close>

theorem nil_is_no_op:
  "Wrap h None = (None, h) \<and>
   WithCause h p None = Some (p, h) \<and>
   (case WithCause h p None of None \<Rightarrow> False | Some (q, h') \<Rightarrow> WithCause h' q None = Some (p, h)) \<and>
   Extends h p [] = Some (p, h) \<and>
   Extends h p (replicate k None) = Some (p, h)"
proof -
  have "nonNilErrs (replicate k None) = []"
    by (simp add: nonNilErrs_filter)
  then show ?thesis
    by (simp add: Wrap_def WithCause_def Extends_def nonNilErrs_def)
qed

text \<open>
  C6, amended. For a proxy \<open>p\<close> in a well-formed store and fuel that covers the store,
  the hook \<^verbatim>\<open>p.As(target)\<close> goes through \<open>p\<close>'s \<open>extends\<close> list in order and returns
  what \<^verbatim>\<open>errors.As\<close> returns on the first entry for which \<^verbatim>\<open>errors.As\<close> is true, leaving
  in the target what \<^verbatim>\<open>errors.As\<close> put there for that entry; when \<^verbatim>\<open>errors.As\<close> is true
  for no entry it returns false and the target is as it was. A call of \<^verbatim>\<open>errors.As\<close>
  that returns false leaves the target as it was, and on an entry whose own type is
  assignable to the target it puts the entry itself there.
\<close>

theorem As_hook_first_match:
  assumes "wf_heap h" and "deref h p = Some pr" and "length h \<le> n"
  shows "As n h p target =
           (case find (\<lambda>ext. map_option fst (errors_As n h ext target) = Some True) (extends pr) of
              None \<Rightarrow> Some (False, target)
            | Some ext \<Rightarrow> errors_As n h ext target) \<and>
         (\<forall>ext target'. errors_As n h ext target = Some (False, target') \<longrightarrow> target' = target) \<and>
         (\<forall>e ob. lookup h e = Some ob \<and> type_of ob \<in> assignable target \<longrightarrow>
            errors_As n h (Some e) target = Some (True, target\<lparr>content := Some e\<rparr>))"
proof (intro conjI allI impI)
  from assms(2) have lk: "lookup h p = Some (ProxyObj pr)" and p: "p < length h"
    by (simp_all add: deref_Some_lookup deref_Some_less)
  have "errors_As n h ext target \<noteq> None" if "ext \<in> set (extends pr)" for ext
  proof (rule errors_As_returns [OF assms(1)])
    fix a assume "ext = Some a"
    with that assms(1) lk have "a < p" by (auto dest: wf_heap_extends)
    with p assms(3) show "a < length h \<and> a < n" by simp
  qed
  then have "As_range n h (extends pr) target =
           (case find (\<lambda>ext. map_option fst (errors_As n h ext target) = Some True) (extends pr) of
              None \<Rightarrow> Some (False, target)
            | Some ext \<Rightarrow> errors_As n h ext target)"
    by (rule As_range_first)
  with assms(2) show "As n h p target =
           (case find (\<lambda>ext. map_option fst (errors_As n h ext target) = Some True) (extends pr) of
              None \<Rightarrow> Some (False, target)
            | Some ext \<Rightarrow> errors_As n h ext target)"
    by (simp del: errors_As.simps)
next
  fix ext target'
  assume "errors_As n h ext target = Some (False, target')"
  then have "as_post h target (False, target')" by (rule errors_As_post)
  then show "target' = target" by (simp add: as_post_def)
next
  fix e ob
  assume a: "lookup h e = Some ob \<and> type_of ob \<in> assignable target"
  then have "e < length h" by (simp add: lookup_def split: if_splits)
  with assms(3) obtain k where "n = Suc k" by (cases n) auto
  with a show "errors_As n h (Some e) target = Some (True, target\<lparr>content := Some e\<rparr>)"
    using errors_As_assignable by blast
qed

theorem As_hook_first_match_witness:
  "wf_heap store_wrapped \<and>
   deref store_wrapped 4 = Some \<lparr>base = Some 2, cause = None, extends = [Some 1]\<rparr> \<and>
   length store_wrapped \<le> 5 \<and>
   errors_As 5 store_wrapped (Some 1) \<lparr>assignable = {Other 7}, content = None\<rparr>
     = Some (True, \<lparr>assignable = {Other 7}, content = Some 0\<rparr>) \<and>
   As 5 store_wrapped 4 \<lparr>assignable = {Other 7}, content = None\<rparr>
     = errors_As 5 store_wrapped (Some 1) \<lparr>assignable = {Other 7}, content = None\<rparr> \<and>
   As 5 store_wrapped 4 \<lparr>assignable = {Other 9}, content = None\<rparr>
     = Some (False, \<lparr>assignable = {Other 9}, content = None\<rparr>)"
proof -
  have wf: "wf_heap store_wrapped"
    by (simp add: wf_heap_def store_wrapped_def refs_def below_def)
  have d: "deref store_wrapped 4 = Some \<lparr>base = Some 2, cause = None, extends = [Some 1]\<rparr>"
    by (simp add: deref_def lookup_def store_wrapped_def)
  have l: "length store_wrapped \<le> 5"
    by (simp add: store_wrapped_def)
  have e7: "errors_As 5 store_wrapped (Some 1) \<lparr>assignable = {Other 7}, content = None\<rparr>
     = Some (True, \<lparr>assignable = {Other 7}, content = Some 0\<rparr>)"
    by (simp add: eval_nat_numeral lookup_def store_wrapped_def type_of_def)
  have e9: "errors_As 5 store_wrapped (Some 1) \<lparr>assignable = {Other 9}, content = None\<rparr>
     = Some (False, \<lparr>assignable = {Other 9}, content = None\<rparr>)"
    by (simp add: eval_nat_numeral lookup_def store_wrapped_def type_of_def)
  have f7: "find (\<lambda>ext. map_option fst
      (errors_As 5 store_wrapped ext \<lparr>assignable = {Other 7}, content = None\<rparr>) = Some True)
      [Some 1] = Some (Some 1)"
    using e7 by (auto simp del: errors_As.simps)
  have f9: "find (\<lambda>ext. map_option fst
      (errors_As 5 store_wrapped ext \<lparr>assignable = {Other 9}, content = None\<rparr>) = Some True)
      [Some 1] = None"
    using e9 by (auto simp del: errors_As.simps)
  have "As 5 store_wrapped 4 \<lparr>assignable = {Other 7}, content = None\<rparr>
     = errors_As 5 store_wrapped (Some 1) \<lparr>assignable = {Other 7}, content = None\<rparr>"
    using As_hook_first_match [OF wf d l, of "\<lparr>assignable = {Other 7}, content = None\<rparr>",
        THEN conjunct1] f7
    by (simp del: errors_As.simps As.simps)
  moreover have "As 5 store_wrapped 4 \<lparr>assignable = {Other 9}, content = None\<rparr>
     = Some (False, \<lparr>assignable = {Other 9}, content = None\<rparr>)"
    using As_hook_first_match [OF wf d l, of "\<lparr>assignable = {Other 9}, content = None\<rparr>",
        THEN conjunct1] f9
    by (simp del: errors_As.simps As.simps)
  ultimately show ?thesis using wf d l e7 by (simp del: errors_As.simps As.simps)
qed

text \<open>
  C6 as stated fails: the only entry of the proxy at 4 is the wrapper at 1, on which
  \<^verbatim>\<open>errors.As\<close> is true for a target of the custom type, and the hook leaves the wrapped
  error at 0 in the target, not the entry.
\<close>

theorem As_hook_counterexample:
  "map_option extends (deref store_wrapped 4) = Some [Some 1] \<and>
   errors_As 5 store_wrapped (Some 1) \<lparr>assignable = {Other 7}, content = None\<rparr>
     = Some (True, \<lparr>assignable = {Other 7}, content = Some 0\<rparr>) \<and>
   As 5 store_wrapped 4 \<lparr>assignable = {Other 7}, content = None\<rparr>
     = Some (True, \<lparr>assignable = {Other 7}, content = Some 0\<rparr>) \<and>
   As 5 store_wrapped 4 \<lparr>assignable = {Other 7}, content = None\<rparr>
     \<noteq> Some (True, \<lparr>assignable = {Other 7}, content = Some 1\<rparr>)"
  by (simp add: eval_nat_numeral deref_def lookup_def store_wrapped_def type_of_def)

text \<open>
  C7. For a non-nil \<open>err\<close>, \<^verbatim>\<open>Wrap(err)\<close> returns a new proxy whose base is \<open>err\<close>, so
  that \<^verbatim>\<open>Unwrap()\<close> returns \<open>err\<close>; the walk of \<^verbatim>\<open>errors.Is\<close> from the proxy, for any
  target but the proxy itself, goes on as the walk from \<open>err\<close>, and finds \<open>err\<close> when
  the type of \<open>err\<close> is comparable. On a proxy built by \<^verbatim>\<open>New\<close> or \<^verbatim>\<open>Newf\<close>,
  \<^verbatim>\<open>Unwrap()\<close> returns the base error built from the text, and the walk of \<^verbatim>\<open>errors.Is\<close>
  from the proxy finds it.
\<close>

theorem Unwrap_returns_base:
  "(\<exists>p h'. Wrap h (Some err) = (Some p, h') \<and> lookup h p = None \<and>
      deref h' p = Some \<lparr>base = Some err, cause = None, extends = []\<rparr> \<and>
      Unwrap h' p = Some (Some err) \<and>
      (\<forall>t. t \<noteq> p \<longrightarrow>
         errors_Is (Suc n) h' (Some p) (Some t) = errors_Is n h' (Some err) (Some t)) \<and>
      (isComparable h err \<longrightarrow>
         errors_Is (Suc (Suc n)) h' (Some p) (Some err) = Some True)) \<and>
   (\<exists>p h' b. New h t = (p, h') \<and> Unwrap h' p = Some (Some b) \<and>
      lookup h' b = Some (ErrObj errorString True t (UnwrapOne None)) \<and>
      errors_Is (Suc (Suc n)) h' (Some p) (Some b) = Some True) \<and>
   (\<exists>p h' b. Newf h (ty, t, u) = (p, h') \<and> Unwrap h' p = Some (Some b) \<and>
      lookup h' b = Some (ErrObj ty True t u) \<and>
      errors_Is (Suc (Suc n)) h' (Some p) (Some b) = Some True)"
proof (intro conjI)
  let ?h' = "h @ [ProxyObj \<lparr>base = Some err, cause = None, extends = []\<rparr>]"
  have "Wrap h (Some err) = (Some (length h), ?h')"
    by (simp add: Wrap_def alloc_def)
  moreover have "lookup h (length h) = None" by (rule lookup_fresh)
  moreover have "deref ?h' (length h) = Some \<lparr>base = Some err, cause = None, extends = []\<rparr>"
    by (rule deref_alloc_new)
  moreover from this have "Unwrap ?h' (length h) = Some (Some err)"
    by (simp add: Unwrap_def)
  ultimately show "\<exists>p h'. Wrap h (Some err) = (Some p, h') \<and> lookup h p = None \<and>
      deref h' p = Some \<lparr>base = Some err, cause = None, extends = []\<rparr> \<and>
      Unwrap h' p = Some (Some err) \<and>
      (\<forall>t. t \<noteq> p \<longrightarrow>
         errors_Is (Suc n) h' (Some p) (Some t) = errors_Is n h' (Some err) (Some t)) \<and>
      (isComparable h err \<longrightarrow>
         errors_Is (Suc (Suc n)) h' (Some p) (Some err) = Some True)"
    using Wrap_walk [where h = h and err = err and n = n] by blast
next
  let ?h' = "h @ [ErrObj errorString True t (UnwrapOne None),
                  ProxyObj \<lparr>base = Some (length h), cause = None, extends = []\<rparr>]"
  have "New h t = (Suc (length h), ?h')"
    by (simp add: New_def errors_New_def alloc_def)
  with New_walk(1) [where h = h and ty = errorString and t = t and u = "UnwrapOne None" and n = n]
    New_walk(2,3) [where h = h and ty = errorString and t = t and u = "UnwrapOne None"]
  show "\<exists>p h' b. New h t = (p, h') \<and> Unwrap h' p = Some (Some b) \<and>
      lookup h' b = Some (ErrObj errorString True t (UnwrapOne None)) \<and>
      errors_Is (Suc (Suc n)) h' (Some p) (Some b) = Some True"
    by blast
next
  let ?h' = "h @ [ErrObj ty True t u,
                  ProxyObj \<lparr>base = Some (length h), cause = None, extends = []\<rparr>]"
  have "Newf h (ty, t, u) = (Suc (length h), ?h')"
    by (simp add: Newf_def fmt_Errorf_def alloc_def)
  with New_walk(1) [where h = h and ty = ty and t = t and u = u and n = n]
    New_walk(2,3) [where h = h and ty = ty and t = t and u = u]
  show "\<exists>p h' b. Newf h (ty, t, u) = (p, h') \<and> Unwrap h' p = Some (Some b) \<and>
      lookup h' b = Some (ErrObj ty True t u) \<and>
      errors_Is (Suc (Suc n)) h' (Some p) (Some b) = Some True"
    by blast
qed

theorem Unwrap_returns_base_witness:
  "isComparable store_user 0 \<and>
   (\<exists>p h'. Wrap store_user (Some 0) = (Some p, h') \<and> Unwrap h' p = Some (Some 0) \<and>
      errors_Is (Suc (Suc 0)) h' (Some p) (Some 0) = Some True) \<and>
   (\<exists>p h' b. New store_user ''some message'' = (p, h') \<and> Unwrap h' p = Some (Some b) \<and>
      lookup h' b = Some (ErrObj errorString True ''some message'' (UnwrapOne None)))"
proof -
  have c: "isComparable store_user 0"
    by (simp add: isComparable_def comparable_def lookup_def store_user_def)
  from Unwrap_returns_base [where h = store_user and err = 0 and n = 0
      and t = "''some message''" and ty = 0 and u = "UnwrapOne None"] c
  show ?thesis by blast
qed

text \<open>
  C8. For a proxy \<open>p\<close> with message \<open>m\<close> (in a well-formed store, with fuel that covers
  it), \<^verbatim>\<open>Format\<close> writes exactly \<open>m\<close> for the verb \<open>v\<close> without the \<open>+\<close> flag and for
  the verb \<open>s\<close>; for \<open>v\<close> with the \<open>+\<close> flag it writes \<open>m\<close> when there is no cause and
  \<open>m (cause: cm)\<close> when there is a cause, \<open>cm\<close> being the text of the cause's
  \<^verbatim>\<open>Error()\<close>, whatever cause the cause itself has; for \<open>q\<close> it writes the quoted \<open>m\<close>;
  for any other verb it writes nothing and returns.
\<close>

theorem Format_output:
  assumes "wf_heap h" and "deref h p = Some pr" and "length h < n"
  shows "\<exists>m. Error n h p = Some m \<and>
           (\<not> Flag s (rune CHR ''+'') \<longrightarrow>
              Format quote n h p s (rune CHR ''v'') = Some (Write s m)) \<and>
           Format quote n h p s (rune CHR ''s'') = Some (Write s m) \<and>
           (Flag s (rune CHR ''+'') \<longrightarrow>
              (case cause pr of
                 None \<Rightarrow> Format quote n h p s (rune CHR ''v'') = Some (Write s m)
               | Some c \<Rightarrow>
                   (\<exists>cm. Error n h c = Some cm \<and>
                      Format quote n h p s (rune CHR ''v'')
                        = Some (Write s (m @ '' (cause: '' @ cm @ '')''))))) \<and>
           Format quote n h p s (rune CHR ''q'') = Some (Write s (quote m)) \<and>
           (\<forall>verb. verb \<notin> {rune CHR ''v'', rune CHR ''s'', rune CHR ''q''} \<longrightarrow>
              Format quote n h p s verb = Some s)"
proof -
  from assms(2) have lk: "lookup h p = Some (ProxyObj pr)" and p: "p < length h"
    by (simp_all add: deref_Some_lookup deref_Some_less)
  from assms(3) obtain k where k: "n = Suc k" and hk: "length h \<le> k"
    by (cases n) auto
  from assms(1) p assms(3) have "Error n h p \<noteq> None"
    by (intro Error_returns) auto
  then obtain m where m: "Error n h p = Some m" by auto
  have vs: "rune CHR ''s'' \<noteq> rune CHR ''v''" "rune CHR ''q'' \<noteq> rune CHR ''v''"
    "rune CHR ''q'' \<noteq> rune CHR ''s''"
    by (simp_all add: rune_def)
  have plain: "Format quote n h p s (rune CHR ''v'') = Some (Write s m)"
    if "\<not> Flag s (rune CHR ''+'') \<or> cause pr = None"
    using that assms(2) m by auto
  have withc: "\<exists>cm. Error n h c = Some cm \<and>
        Format quote n h p s (rune CHR ''v'') = Some (Write s (m @ '' (cause: '' @ cm @ '')''))"
    if pl: "Flag s (rune CHR ''+'')" and c: "cause pr = Some c" for c
  proof -
    from assms(1) lk c have "c < p" by (rule wf_heap_cause)
    with p hk have "c < length h" "c < k" by simp_all
    with assms(1) have "Error k h c \<noteq> None" by (intro Error_returns)
    then obtain cm where cm: "Error k h c = Some cm" by auto
    then have "verb_s quote n h c = Some cm" unfolding k by (rule verb_s_Error)
    moreover from cm have "Error n h c = Some cm" by (rule Error_mono) (simp add: k)
    ultimately show ?thesis using pl c assms(2) m by simp
  qed
  have "Format quote n h p s (rune CHR ''s'') = Some (Write s m)"
    using m vs by simp
  moreover have "Format quote n h p s (rune CHR ''q'') = Some (Write s (quote m))"
    using m vs by simp
  moreover have "\<forall>verb. verb \<notin> {rune CHR ''v'', rune CHR ''s'', rune CHR ''q''} \<longrightarrow>
              Format quote n h p s verb = Some s"
    by simp
  ultimately show ?thesis
    using m plain withc by (auto split: option.splits)
qed

theorem Format_output_witness:
  "wf_heap store_nested \<and>
   deref store_nested 6 = Some \<lparr>base = Some 4, cause = Some 3, extends = [Some 5]\<rparr> \<and>
   length store_nested < 8 \<and>
   Error 8 store_nested 6 = Some ''some main error'' \<and>
   Error 8 store_nested 3 = Some ''some outer cause'' \<and>
   Format quote_plain 8 store_nested 6 \<lparr>flags = {}, written = []\<rparr> (rune CHR ''v'')
     = Some \<lparr>flags = {}, written = ''some main error''\<rparr> \<and>
   Format quote_plain 8 store_nested 6 \<lparr>flags = {rune CHR ''+''}, written = []\<rparr> (rune CHR ''v'')
     = Some \<lparr>flags = {rune CHR ''+''}, written = ''some main error (cause: some outer cause)''\<rparr> \<and>
   Format quote_plain 8 store_nested 6 \<lparr>flags = {}, written = []\<rparr> (rune CHR ''q'')
     = Some \<lparr>flags = {}, written = [CHR 0x22] @ ''some main error'' @ [CHR 0x22]\<rparr> \<and>
   Format quote_plain 8 store_nested 6 \<lparr>flags = {}, written = []\<rparr> (rune CHR ''d'')
     = Some \<lparr>flags = {}, written = []\<rparr>"
proof -
  have wf: "wf_heap store_nested"
    by (simp add: wf_heap_def store_nested_def refs_def below_def)
  have d: "deref store_nested 6 = Some \<lparr>base = Some 4, cause = Some 3, extends = [Some 5]\<rparr>"
    by (simp add: deref_def lookup_def store_nested_def)
  have l: "length store_nested < 8"
    by (simp add: store_nested_def)
  have m: "Error 8 store_nested 6 = Some ''some main error''"
    by (simp add: eval_nat_numeral lookup_def store_nested_def)
  have cm: "Error 8 store_nested 3 = Some ''some outer cause''"
    by (simp add: eval_nat_numeral lookup_def store_nested_def)
  have r: "rune CHR ''d'' \<notin> {rune CHR ''v'', rune CHR ''s'', rune CHR ''q''}"
    by (simp add: rune_def)
  from Format_output [OF wf d l, of "\<lparr>flags = {}, written = []\<rparr>" quote_plain]
    Format_output [OF wf d l, of "\<lparr>flags = {rune CHR ''+''}, written = []\<rparr>" quote_plain]
    m cm r wf d l
  show ?thesis
    by (simp add: Flag_def Write_def quote_plain_def del: Format.simps)
qed







end
